theory Spec2Isabelle
  imports Main "HOL-Library.Sublist"
begin

section \<open>JavaScript strings and global replacement\<close>

text \<open>
  A JavaScript string is modelled as a \<open>string\<close>, one \<open>char\<close> per code unit (the
  Latin-1 range). A regular expression of the source is modelled by the function that
  decides, for the input from the current position on, whether the pattern matches
  there, and with which length and captures. None of the source's patterns looks
  behind the current position, so the rest of the input determines the match.
\<close>

type_synonym regexp = "string \<Rightarrow> (nat \<times> string list) option"

definition is_digit :: "char \<Rightarrow> bool" where
  "is_digit c = (48 \<le> (of_char c :: nat) \<and> (of_char c :: nat) \<le> 57)"

definition digit_val :: "char \<Rightarrow> nat" where
  "digit_val c = of_char c - 48"

text \<open>
  \<open>GetSubstitution\<close> of ECMAScript expands a replacement template: \<open>$$\<close> is a dollar
  sign, \<open>$&\<close> the matched text, \<open>$`\<close> the input preceding the match, \<open>$'\<close> the input
  following it, \<open>$n\<close> and \<open>$nn\<close> a capture when such a group exists; any other dollar
  sign stands for itself.
\<close>

fun GetSubstitution :: "string \<Rightarrow> string \<Rightarrow> string \<Rightarrow> string list \<Rightarrow> string \<Rightarrow> string" where
  "GetSubstitution matched preceding following captures [] = []"
| "GetSubstitution matched preceding following captures [c] = [c]"
| "GetSubstitution matched preceding following captures (c # d # r) =
     (if c \<noteq> CHR ''$'' then c # GetSubstitution matched preceding following captures (d # r)
      else if d = CHR ''$'' then CHR ''$'' # GetSubstitution matched preceding following captures r
      else if d = CHR 0x60 then preceding @ GetSubstitution matched preceding following captures r
      else if d = CHR ''&'' then matched @ GetSubstitution matched preceding following captures r
      else if d = CHR 0x27 then following @ GetSubstitution matched preceding following captures r
      else if is_digit d then
        (case r of
           e # r' \<Rightarrow>
             if is_digit e \<and> 10 * digit_val d + digit_val e \<le> length captures then
               (if 1 \<le> 10 * digit_val d + digit_val e
                then captures ! (10 * digit_val d + digit_val e - 1)
                       @ GetSubstitution matched preceding following captures r'
                else c # d # e # GetSubstitution matched preceding following captures r')
             else if 1 \<le> digit_val d \<and> digit_val d \<le> length captures
             then captures ! (digit_val d - 1) @ GetSubstitution matched preceding following captures r
             else c # d # GetSubstitution matched preceding following captures r
         | [] \<Rightarrow>
             if 1 \<le> digit_val d \<and> digit_val d \<le> length captures
             then captures ! (digit_val d - 1)
             else [c, d])
      else c # GetSubstitution matched preceding following captures (d # r))"

text \<open>
  \<open>str.replace(re, template)\<close> for a regular expression with the \<open>g\<close> flag: the input is
  scanned from the left; at a position where the pattern matches, the expanded template
  is emitted and the scan resumes following the match (one position further when the match is
  empty); elsewhere the code unit is copied. \<open>preceding\<close> is the input already scanned.
\<close>

function js_replace :: "regexp \<Rightarrow> string \<Rightarrow> string \<Rightarrow> string \<Rightarrow> string" where
  "js_replace rx template preceding [] =
     (case rx [] of
        None \<Rightarrow> []
      | Some (n, captures) \<Rightarrow> GetSubstitution [] preceding [] captures template)"
| "js_replace rx template preceding (c # cs) =
     (case rx (c # cs) of
        None \<Rightarrow> c # js_replace rx template (preceding @ [c]) cs
      | Some (n, captures) \<Rightarrow>
          GetSubstitution (take n (c # cs)) preceding (drop n (c # cs)) captures template @
          (if n = 0 then c # js_replace rx template (preceding @ [c]) cs
           else js_replace rx template (preceding @ take n (c # cs)) (drop n (c # cs))))"
  by pat_completeness auto
termination
  by (relation "measure (\<lambda>(rx, template, preceding, s). length s)") auto

text \<open>A pattern without metacharacters matches exactly its own text.\<close>

definition literal :: "string \<Rightarrow> regexp" where
  "literal p s = (if prefix p s then Some (length p, []) else None)"

section \<open>The URL rewriter \<open>sanitizeHTML\<close>\<close>

text \<open>
  With the \<open>i\<close> flag a code unit matches an ASCII letter of the pattern when both have
  the same upper-case form; no code unit above 127 is canonicalised to an ASCII one.
\<close>

definition Canonicalize :: "char \<Rightarrow> char" where
  "Canonicalize c =
     (if 97 \<le> (of_char c :: nat) \<and> (of_char c :: nat) \<le> 122
      then char_of ((of_char c :: nat) - 32) else c)"

fun prefix_ci :: "string \<Rightarrow> string \<Rightarrow> bool" where
  "prefix_ci [] s = True"
| "prefix_ci (p # ps) [] = False"
| "prefix_ci (p # ps) (c # cs) = (Canonicalize p = Canonicalize c \<and> prefix_ci ps cs)"

text \<open>The offset of the first position at which \<open>p\<close> occurs, ignoring case.\<close>

fun find_ci :: "string \<Rightarrow> string \<Rightarrow> nat option" where
  "find_ci p [] = (if prefix_ci p [] then Some 0 else None)"
| "find_ci p (c # cs) =
     (if prefix_ci p (c # cs) then Some 0 else map_option Suc (find_ci p cs))"

text \<open>
  \<^verbatim>\<open>new RegExp(`<${tag}[^>]*>.*?<\/${tag}>`, 'gis')\<close>: the tag name following the opening
  angle bracket, then every code unit up to the first closing angle bracket, then as
  little as possible up to the first closing tag. The negated class can only stop in
  front of a closing angle bracket, so backtracking adds no other match. The tag names
  of the source are plain letters.
\<close>

definition elementRegExp :: "string \<Rightarrow> regexp" where
  "elementRegExp tag s =
     (if prefix_ci (''<'' @ tag) s then
        (let r = drop (length tag + 1) s;
             k = length (takeWhile (\<lambda>c. c \<noteq> CHR ''>'') r)
         in if k < length r then
              (case find_ci (''</'' @ tag @ ''>'') (drop (k + 1) r) of
                 None \<Rightarrow> None
               | Some j \<Rightarrow> Some (length tag + 1 + k + 1 + j + (length tag + 3), []))
            else None)
      else None)"

text \<open>
  \<^verbatim>\<open>new RegExp(`<${tag}[^>]*\/?>`, 'gi')\<close>: the tag name following the opening angle
  bracket, then every code unit up to and including the first closing angle bracket.
  The optional slash never matches: the greedy class has already consumed any slash in
  front of the closing angle bracket.
\<close>

definition selfClosingRegExp :: "string \<Rightarrow> regexp" where
  "selfClosingRegExp tag s =
     (if prefix_ci (''<'' @ tag) s then
        (let r = drop (length tag + 1) s;
             k = length (takeWhile (\<lambda>c. c \<noteq> CHR ''>'') r)
         in if k < length r then Some (length tag + 1 + k + 1, []) else None)
      else None)"

definition tagsToRemove :: "string list" where
  "tagsToRemove = [''meta'', ''noscript'']"

definition removeTag :: "string \<Rightarrow> string \<Rightarrow> string" where
  "removeTag tag cleanHTML =
     js_replace (selfClosingRegExp tag) [] []
       (js_replace (elementRegExp tag) [] [] cleanHTML)"

definition sanitizeHTML :: "string \<Rightarrow> string \<Rightarrow> string" where
  \<open>sanitizeHTML htmlString urlToScrape =
     (let cleanHTML = htmlString;
          cleanHTML = js_replace (literal ''src="/assets/'') (''src="'' @ urlToScrape @ ''/assets/'') [] cleanHTML;
          cleanHTML = js_replace (literal ''href="/assets/'') (''href="'' @ urlToScrape @ ''/assets/'') [] cleanHTML;
          cleanHTML = js_replace (literal ''url(/assets/'') (''url('' @ urlToScrape @ ''/assets/'') [] cleanHTML;
          cleanHTML = js_replace (literal ''src="/'') (''src="'' @ urlToScrape @ ''/'') [] cleanHTML;
          cleanHTML = js_replace (literal ''href="/'') (''href="'' @ urlToScrape @ ''/'') [] cleanHTML;
          cleanHTML = js_replace (literal ''url(/'') (''url('' @ urlToScrape @ ''/'') [] cleanHTML;
          cleanHTML = js_replace (literal ''src="/videos/'') (''src="'' @ urlToScrape @ ''/videos/'') [] cleanHTML;
          cleanHTML = js_replace (literal ''href="/videos/'') (''href="'' @ urlToScrape @ ''/videos/'') [] cleanHTML;
          cleanHTML = js_replace (literal ''url(/videos/'') (''url('' @ urlToScrape @ ''/videos/'') [] cleanHTML
      in fold removeTag tagsToRemove cleanHTML)\<close>

section \<open>The post-processing of the generated page\<close>

datatype error = URIError | OutOfRange

text \<open>
  \<open>str.replace(re, fn)\<close> with the \<open>g\<close> flag and a replacer function: the function is
  called with the matched text and the captures, and what it throws is thrown by the
  replacement.
\<close>

function js_replace_fn ::
  "regexp \<Rightarrow> (string \<Rightarrow> string list \<Rightarrow> error + string) \<Rightarrow> string \<Rightarrow> error + string" where
  "js_replace_fn rx f [] =
     (case rx [] of
        None \<Rightarrow> Inr []
      | Some (n, captures) \<Rightarrow> f [] captures)"
| "js_replace_fn rx f (c # cs) =
     (case rx (c # cs) of
        None \<Rightarrow> map_sum id (Cons c) (js_replace_fn rx f cs)
      | Some (n, captures) \<Rightarrow>
          (case f (take n (c # cs)) captures of
             Inl e \<Rightarrow> Inl e
           | Inr replacement \<Rightarrow>
               map_sum id (append replacement)
                 (if n = 0 then map_sum id (Cons c) (js_replace_fn rx f cs)
                  else js_replace_fn rx f (drop n (c # cs)))))"
  by pat_completeness auto
termination
  by (relation "measure (\<lambda>(rx, f, s). length s)") auto

definition hex_val :: "char \<Rightarrow> nat option" where
  "hex_val c =
     (let n = (of_char c :: nat)
      in if 48 \<le> n \<and> n \<le> 57 then Some (n - 48)
         else if 65 \<le> n \<and> n \<le> 70 then Some (n - 55)
         else if 97 \<le> n \<and> n \<le> 102 then Some (n - 87)
         else None)"

fun ParseHexOctet :: "string \<Rightarrow> nat option" where
  "ParseHexOctet (h # l # r) =
     (case (hex_val h, hex_val l) of
        (Some a, Some b) \<Rightarrow> Some (16 * a + b)
      | _ \<Rightarrow> None)"
| "ParseHexOctet r = None"

text \<open>The octet of an escape sequence \<open>%XY\<close> at the head of the input.\<close>

fun escape_octet :: "string \<Rightarrow> nat option" where
  "escape_octet (c # r) = (if c = CHR ''%'' then ParseHexOctet r else None)"
| "escape_octet [] = None"

text \<open>The number of leading one bits of an octet.\<close>

definition leading_ones :: "nat \<Rightarrow> nat" where
  "leading_ones b =
     (if b < 128 then 0 else if b < 192 then 1 else if b < 224 then 2
      else if b < 240 then 3 else if b < 248 then 4 else 5)"

text \<open>
  The code point of a well-formed UTF-8 sequence of two to four octets: no overlong
  form, no surrogate, nothing above U+10FFFF.
\<close>

fun utf8_code_point :: "nat list \<Rightarrow> nat option" where
  "utf8_code_point [a, b] =
     (if 194 \<le> a \<and> a \<le> 223 \<and> 128 \<le> b \<and> b \<le> 191
      then Some ((a - 192) * 64 + (b - 128)) else None)"
| "utf8_code_point [a, b, c] =
     (if 224 \<le> a \<and> a \<le> 239 \<and> 128 \<le> b \<and> b \<le> 191 \<and> 128 \<le> c \<and> c \<le> 191
         \<and> (a = 224 \<longrightarrow> 160 \<le> b) \<and> (a = 237 \<longrightarrow> b \<le> 159)
      then Some ((a - 224) * 4096 + (b - 128) * 64 + (c - 128)) else None)"
| "utf8_code_point [a, b, c, d] =
     (if 240 \<le> a \<and> a \<le> 244 \<and> 128 \<le> b \<and> b \<le> 191 \<and> 128 \<le> c \<and> c \<le> 191
         \<and> 128 \<le> d \<and> d \<le> 191 \<and> (a = 240 \<longrightarrow> 144 \<le> b) \<and> (a = 244 \<longrightarrow> b \<le> 143)
      then Some ((a - 240) * 262144 + (b - 128) * 4096 + (c - 128) * 64 + (d - 128))
      else None)"
| "utf8_code_point octets = None"

fun those_octets :: "nat option list \<Rightarrow> nat list option" where
  "those_octets [] = Some []"
| "those_octets (None # r) = None"
| "those_octets (Some b # r) = map_option (Cons b) (those_octets r)"

text \<open>
  \<open>decodeURIComponent\<close>: every escape sequence is replaced by the code point that its
  octets encode in UTF-8; a truncated or malformed escape sequence and an ill-formed
  octet sequence throw \<open>URIError\<close>. A code point above U+00FF lies outside the strings
  modelled here and is reported as \<open>OutOfRange\<close>.
\<close>

function decodeURIComponent :: "string \<Rightarrow> error + string" where
  "decodeURIComponent [] = Inr []"
| "decodeURIComponent (c # cs) =
     (if c \<noteq> CHR ''%'' then map_sum id (Cons c) (decodeURIComponent cs)
      else
        (case ParseHexOctet cs of
           None \<Rightarrow> Inl URIError
         | Some b \<Rightarrow>
             (let n = leading_ones b
              in if n = 0 then map_sum id (Cons (char_of b)) (decodeURIComponent (drop 2 cs))
                 else if n = 1 \<or> n > 4 then Inl URIError
                 else
                   (case those_octets (map (\<lambda>j. escape_octet (drop (2 + 3 * j) cs)) [0..<n - 1]) of
                      None \<Rightarrow> Inl URIError
                    | Some octets \<Rightarrow>
                        (case utf8_code_point (b # octets) of
                           None \<Rightarrow> Inl URIError
                         | Some v \<Rightarrow>
                             if v \<le> 255
                             then map_sum id (Cons (char_of v))
                                    (decodeURIComponent (drop (2 + 3 * (n - 1)) cs))
                             else Inl OutOfRange)))))"
  by pat_completeness auto
termination
  by (relation "measure length") auto

text \<open>
  \<^verbatim>\<open>/src="https:\/\/www\.orchids\.app\/_next\/image\?url=([^"&]+)(?:&[^"]*)?"/g\<close>: the
  fixed prefix, a non-empty run without quote and ampersand (the capture), then either
  the closing quote at once, or an ampersand and every code unit up to the closing quote.
  Both runs are greedy and can only stop in front of the code unit that must follow, so
  backtracking adds no other match.
\<close>

definition imageProxyRegExp :: regexp where
  \<open>imageProxyRegExp s =
     (let l = ''src="https://www.orchids.app/_next/image?url=''
      in if prefix l s then
           (let r = drop (length l) s;
                encodedUrl = takeWhile (\<lambda>c. c \<noteq> CHR 0x22 \<and> c \<noteq> CHR ''&'') r
            in if encodedUrl = [] then None
               else
                 (case drop (length encodedUrl) r of
                    [] \<Rightarrow> None
                  | c # r' \<Rightarrow>
                      if c = CHR 0x22 then Some (length l + length encodedUrl + 1, [encodedUrl])
                      else
                        (let k = length (takeWhile (\<lambda>c. c \<noteq> CHR 0x22) r')
                         in if k < length r'
                            then Some (length l + length encodedUrl + 1 + k + 1, [encodedUrl])
                            else None)))
         else None)\<close>

text \<open>
  \<^verbatim>\<open>&amp;w=\d+&amp;q=\d+"\<close> at the head of the input: the length of the match.
\<close>

definition size_suffix :: "string \<Rightarrow> nat option" where
  \<open>size_suffix r =
     (if prefix ''&amp;w='' r then
        (let w = length (takeWhile is_digit (drop 7 r));
             r' = drop (7 + w) r
         in if 0 < w \<and> prefix ''&amp;q='' r' then
              (let q = length (takeWhile is_digit (drop 7 r'))
               in if 0 < q \<and> prefix [CHR 0x22] (drop (7 + q) r')
                  then Some (7 + w + 7 + q + 1) else None)
            else None)
      else None)\<close>

text \<open>
  The lazy group \<^verbatim>\<open>([^"]*?)\<close> grows one code unit at a time until the rest of the
  pattern matches: the length of the group and of the rest.
\<close>

fun lazy_group :: "string \<Rightarrow> (nat \<times> nat) option" where
  "lazy_group [] = map_option (Pair 0) (size_suffix [])"
| "lazy_group (c # cs) =
     (case size_suffix (c # cs) of
        Some m \<Rightarrow> Some (0, m)
      | None \<Rightarrow>
          if c = CHR 0x22 then None
          else map_option (\<lambda>(k, m). (Suc k, m)) (lazy_group cs))"

text \<open>\<^verbatim>\<open>/src="([^"]*?)&amp;w=\d+&amp;q=\d+"/g\<close>\<close>

definition sizeParamsRegExp :: regexp where
  \<open>sizeParamsRegExp s =
     (if prefix ''src="'' s then
        (case lazy_group (drop 5 s) of
           None \<Rightarrow> None
         | Some (k, m) \<Rightarrow> Some (5 + k + m, [take k (drop 5 s)]))
      else None)\<close>

definition processImageUrls :: "string \<Rightarrow> error + string" where
  \<open>processImageUrls html =
     (case js_replace_fn imageProxyRegExp
             (\<lambda>match captures.
                case decodeURIComponent (captures ! 0) of
                  Inl e \<Rightarrow> Inl e
                | Inr decodedUrl \<Rightarrow> Inr (''src="'' @ decodedUrl @ [CHR 0x22]))
             html of
        Inl e \<Rightarrow> Inl e
      | Inr html' \<Rightarrow>
          Inr (js_replace (literal ''&amp;'') ''&'' []
                 (js_replace sizeParamsRegExp ''src="$1"'' [] html')))\<close>

text \<open>\<^verbatim>\<open>/```html\n?/g\<close> and \<^verbatim>\<open>/\n?```/g\<close>\<close>

definition fenceOpenRegExp :: regexp where
  \<open>fenceOpenRegExp s =
     (if prefix ''```html'' s then
        (if prefix ''\<newline>'' (drop 7 s) then Some (8, []) else Some (7, []))
      else None)\<close>

definition fenceCloseRegExp :: regexp where
  \<open>fenceCloseRegExp s =
     (if prefix ''\<newline>```'' s then Some (4, [])
      else if prefix ''```'' s then Some (3, [])
      else None)\<close>

text \<open>
  The argument of \<open>processImageUrls\<close> in \<open>ResultsPage\<close>:
  \<^verbatim>\<open>generatedHtml.replace(/```html\n?/g, '').replace(/\n?```/g, '')\<close>.
\<close>

definition strip_fences :: "string \<Rightarrow> string" where
  "strip_fences generatedHtml =
     js_replace fenceCloseRegExp [] [] (js_replace fenceOpenRegExp [] [] generatedHtml)"

text \<open>The markup that \<open>ResultsPage\<close> injects.\<close>

definition ResultsPage_html :: "string \<Rightarrow> error + string" where
  "ResultsPage_html generatedHtml = processImageUrls (strip_fences generatedHtml)"

section \<open>The tree builder \<open>parseHTMLToTree\<close>\<close>

text \<open>
  The nodes of the DOM that the builder reads: an element with its \<open>tagName\<close>, its
  attributes in document order and its child nodes; a text node; any other node (a
  comment).
\<close>

datatype Node =
    Element string "(string \<times> string) list" "Node list"
  | Text string
  | Comment string

datatype TreeNode =
  TreeNode (name: string) (children: "TreeNode list")
    (attributes: "(string \<times> string) list option") (content: "string option")

text \<open>\<open>String.prototype.toLowerCase\<close> on the code units modelled here.\<close>

definition toLowerCase_char :: "char \<Rightarrow> char" where
  "toLowerCase_char c =
     (let n = (of_char c :: nat)
      in if (65 \<le> n \<and> n \<le> 90) \<or> (192 \<le> n \<and> n \<le> 222 \<and> n \<noteq> 215)
         then char_of (n + 32) else c)"

definition toLowerCase :: "string \<Rightarrow> string" where
  "toLowerCase s = map toLowerCase_char s"

text \<open>\<open>String.prototype.trim\<close>: white space and line terminators are removed at both ends.\<close>

definition is_white_space :: "char \<Rightarrow> bool" where
  "is_white_space c = ((of_char c :: nat) \<in> {9, 10, 11, 12, 13, 32, 160})"

definition trim :: "string \<Rightarrow> string" where
  "trim s = rev (dropWhile is_white_space (rev (dropWhile is_white_space s)))"

fun join :: "string \<Rightarrow> string list \<Rightarrow> string" where
  "join sep [] = []"
| "join sep [x] = x"
| "join sep (x # y # r) = x @ sep @ join sep (y # r)"

text \<open>
  \<open>attributes[attr.name] = attr.value\<close> on a plain object: a key that is already present
  keeps its place; the key \<open>__proto__\<close> reaches the prototype setter, which ignores a
  string, so no property is created. The order in which the keys of the object are
  enumerated is not modelled.
\<close>

fun assign :: "string \<Rightarrow> string \<Rightarrow> (string \<times> string) list \<Rightarrow> (string \<times> string) list" where
  "assign k v [] = [(k, v)]"
| "assign k v ((k', v') # r) = (if k = k' then (k, v) # r else (k', v') # assign k v r)"

definition set_attribute :: "string \<times> string \<Rightarrow> (string \<times> string) list \<Rightarrow> (string \<times> string) list" where
  "set_attribute attr obj =
     (if fst attr = ''__proto__'' then obj else assign (fst attr) (snd attr) obj)"

text \<open>The text of the direct text-node children, trimmed, the empty ones dropped.\<close>

fun text_of :: "Node \<Rightarrow> string list" where
  "text_of (Text d) = [trim d]"
| "text_of n = []"

fun convertNodeToTree :: "Node \<Rightarrow> TreeNode option" where
  "convertNodeToTree (Element tagName attrs childNodes) =
     Some (TreeNode
       (toLowerCase tagName)
       (map the (filter (\<lambda>t. t \<noteq> None) (map convertNodeToTree childNodes)))
       (let attributes = fold set_attribute attrs []
        in if length attributes > 0 then Some attributes else None)
       (Some (join '' '' (filter (\<lambda>text. length text > 0) (concat (map text_of childNodes))))))"
| "convertNodeToTree (Text d) = None"
| "convertNodeToTree (Comment d) = None"

text \<open>
  \<open>parseHTMLToTree\<close> hands the markup to the \<open>DOMParser\<close> of the browser, which is not
  part of the repository, and converts the children of \<open>doc.documentElement\<close>. The
  model takes the document element that the parser returned.
\<close>

fun childNodes :: "Node \<Rightarrow> Node list" where
  "childNodes (Element tagName attrs cs) = cs"
| "childNodes n = []"

definition parseHTMLToTree :: "Node \<Rightarrow> TreeNode list" where
  "parseHTMLToTree documentElement =
     map the (filter (\<lambda>t. t \<noteq> None) (map convertNodeToTree (childNodes documentElement)))"

text \<open>
  The document element that the HTML parser builds for markup of body content: the
  tree construction of the HTML Standard always creates an \<open>html\<close> element with a
  \<open>head\<close> and a \<open>body\<close> element, and the body holds the parsed nodes. In an HTML
  document \<open>tagName\<close> is the name in upper case.
\<close>

definition html_document :: "Node list \<Rightarrow> Node" where
  "html_document body =
     Element ''HTML'' [] [Element ''HEAD'' [] [], Element ''BODY'' [] body]"

section \<open>The tree presenter \<open>TreeView\<close>\<close>

text \<open>
  An instance of the component \<open>TreeView\<close>: its props \<open>node\<close> and \<open>level\<close>, its state
  \<open>isExpanded\<close>, and the instances it renders for the children of the node, which
  exist only while the instance is expanded.
\<close>

datatype TreeView =
  TreeView (node: TreeNode) (level: nat) (isExpanded: bool) (rendered: "TreeView list")

definition hasChildren :: "TreeNode \<Rightarrow> bool" where
  "hasChildren n = (length (children n) > 0)"

text \<open>The first render: \<open>useState(level < 2)\<close>.\<close>

fun mount :: "TreeNode \<Rightarrow> nat \<Rightarrow> TreeView" where
  "mount (TreeNode nm cs attrs c) lvl =
     TreeView (TreeNode nm cs attrs c) lvl (lvl < 2)
       (if lvl < 2 \<and> length cs > 0 then map (\<lambda>child. mount child (lvl + 1)) cs else [])"

text \<open>
  A click on the header of the instance reached by the given child indices:
  \<open>hasChildren && setIsExpanded(!isExpanded)\<close>. Expanding renders the children anew,
  collapsing unmounts them; a path to an instance that is not rendered clicks nothing.
\<close>

fun onClick :: "nat list \<Rightarrow> TreeView \<Rightarrow> TreeView" where
  "onClick [] (TreeView n lvl expanded kids) =
     (if hasChildren n then
        TreeView n lvl (\<not> expanded)
          (if \<not> expanded then map (\<lambda>child. mount child (lvl + 1)) (children n) else [])
      else TreeView n lvl expanded kids)"
| "onClick (i # path) (TreeView n lvl expanded kids) =
     (if i < length kids
      then TreeView n lvl expanded (kids[i := onClick path (kids ! i)])
      else TreeView n lvl expanded kids)"

text \<open>
  Every rendered instance shows the child of its parent's node at the same index, one
  level deeper.
\<close>

fun shows_tree :: "TreeView \<Rightarrow> bool" where
  "shows_tree (TreeView n lvl expanded kids) =
     ((kids = [] \<or> (expanded \<and> map node kids = children n))
      \<and> list_all (\<lambda>k. level k = lvl + 1 \<and> shows_tree k) kids)"

section \<open>Notions used in the statements\<close>

text \<open>
  One URL pass of \<open>sanitizeHTML\<close>: every occurrence of the opener \<open>P\<close> (\<^verbatim>\<open>src="\<close>,
  \<^verbatim>\<open>href="\<close> or \<^verbatim>\<open>url(\<close>) in front of the path prefix \<open>S\<close> gets the template
  \<open>P @ urlToScrape @ S\<close>.
\<close>

definition url_pass :: "string \<Rightarrow> string \<Rightarrow> string \<Rightarrow> string \<Rightarrow> string" where
  "url_pass P S urlToScrape cleanHTML =
     js_replace (literal (P @ S)) (P @ urlToScrape @ S) [] cleanHTML"

definition openers :: "string list" where
  \<open>openers = [''src="'', ''href="'', ''url('']\<close>

definition path_prefixes :: "string list" where
  "path_prefixes = [''/assets/'', ''/'', ''/videos/'']"

text \<open>The three passes of one path prefix, in the order of the source.\<close>

definition url_stage :: "string \<Rightarrow> string \<Rightarrow> string \<Rightarrow> string" where
  \<open>url_stage S urlToScrape cleanHTML =
     url_pass ''url('' S urlToScrape
       (url_pass ''href="'' S urlToScrape
          (url_pass ''src="'' S urlToScrape cleanHTML))\<close>

text \<open>The nine URL passes of \<open>sanitizeHTML\<close>, without the removal of tags.\<close>

definition url_passes :: "string \<Rightarrow> string \<Rightarrow> string" where
  "url_passes htmlString urlToScrape =
     url_stage ''/videos/'' urlToScrape
       (url_stage ''/'' urlToScrape
          (url_stage ''/assets/'' urlToScrape htmlString))"

text \<open>
  \<open>sanitizeHTML\<close> with the three substitutions for \<^verbatim>\<open>/videos/\<close> removed and nothing
  else changed.
\<close>

definition sanitizeHTML_without_videos :: "string \<Rightarrow> string \<Rightarrow> string" where
  \<open>sanitizeHTML_without_videos htmlString urlToScrape =
     (let cleanHTML = htmlString;
          cleanHTML = js_replace (literal ''src="/assets/'') (''src="'' @ urlToScrape @ ''/assets/'') [] cleanHTML;
          cleanHTML = js_replace (literal ''href="/assets/'') (''href="'' @ urlToScrape @ ''/assets/'') [] cleanHTML;
          cleanHTML = js_replace (literal ''url(/assets/'') (''url('' @ urlToScrape @ ''/assets/'') [] cleanHTML;
          cleanHTML = js_replace (literal ''src="/'') (''src="'' @ urlToScrape @ ''/'') [] cleanHTML;
          cleanHTML = js_replace (literal ''href="/'') (''href="'' @ urlToScrape @ ''/'') [] cleanHTML;
          cleanHTML = js_replace (literal ''url(/'') (''url('' @ urlToScrape @ ''/'') [] cleanHTML
      in fold removeTag tagsToRemove cleanHTML)\<close>

text \<open>
  A base URL that the template inserts as it stands and that cannot form one of the
  patterns: it is not empty, does not begin with a slash, and holds no dollar sign, no
  double quote and no opening parenthesis.
\<close>

definition plain_base :: "string \<Rightarrow> bool" where
  "plain_base urlToScrape =
     (urlToScrape \<noteq> [] \<and> hd urlToScrape \<noteq> CHR ''/''
      \<and> CHR ''$'' \<notin> set urlToScrape \<and> CHR 0x22 \<notin> set urlToScrape
      \<and> CHR ''('' \<notin> set urlToScrape)"

text \<open>A pattern none of whose proper prefixes is also a suffix cannot overlap itself.\<close>

definition unbordered :: "'a list \<Rightarrow> bool" where
  "unbordered p = (\<forall>k \<in> {1..<length p}. take k p \<noteq> drop (length p - k) p)"

text \<open>No root-relative reference: none of the three bare-slash patterns occurs.\<close>

definition no_root_relative :: "string \<Rightarrow> bool" where
  \<open>no_root_relative s =
     (\<not> sublist ''src="/'' s \<and> \<not> sublist ''href="/'' s \<and> \<not> sublist ''url(/'' s)\<close>


section \<open>Properties of the global replacement\<close>

lemma GetSubstitution_plain:
  "CHR ''$'' \<notin> set t \<Longrightarrow> GetSubstitution m b a caps t = t"
  by (induction m b a caps t rule: GetSubstitution.induct) auto

lemma js_replace_no_match:
  "(\<And>i. rx (drop i s) = None) \<Longrightarrow> js_replace rx t b s = s"
proof (induction s arbitrary: b)
  case Nil
  from Nil[of 0] show ?case by simp
next
  case (Cons c cs)
  have h: "rx (c # cs) = None" using Cons.prems[of 0] by simp
  have "\<And>i. rx (drop i cs) = None" using Cons.prems[of "Suc i" for i] by simp
  then have "js_replace rx t (b @ [c]) cs = cs" by (rule Cons.IH)
  with h show ?case by simp
qed

lemma literal_Nil: "p \<noteq> [] \<Longrightarrow> js_replace (literal p) t b [] = []"
  by (simp add: literal_def)

lemma literal_skip:
  "\<not> prefix p (c # cs) \<Longrightarrow>
   js_replace (literal p) t b (c # cs) = c # js_replace (literal p) t (b @ [c]) cs"
  by (simp add: literal_def)

lemma literal_hit:
  assumes "p \<noteq> []" "CHR ''$'' \<notin> set t"
  shows "js_replace (literal p) t b (p @ r) = t @ js_replace (literal p) t (b @ p) r"
proof -
  from assms(1) obtain x xs where p: "p = x # xs" by (cases p) auto
  have "js_replace (literal p) t b (x # (xs @ r)) = t @ js_replace (literal p) t (b @ p) r"
    using assms(2) by (simp add: literal_def p GetSubstitution_plain)
  then show ?thesis by (simp add: p)
qed

lemma literal_indep:
  assumes "p \<noteq> []" "CHR ''$'' \<notin> set t"
  shows "js_replace (literal p) t b s = js_replace (literal p) t b' s"
proof (induction s arbitrary: b b' rule: length_induct)
  case (1 s)
  show ?case
  proof (cases s)
    case Nil
    then show ?thesis using assms by (simp add: literal_def)
  next
    case (Cons c cs)
    show ?thesis
    proof (cases "prefix p s")
      case True
      then obtain r where r: "s = p @ r" by (auto elim: prefixE)
      have "length r < length s" using assms(1) r by simp
      then have "js_replace (literal p) t (b @ p) r = js_replace (literal p) t (b' @ p) r"
        using 1 by blast
      then show ?thesis by (simp add: r literal_hit[OF assms] del: js_replace.simps)
    next
      case False
      have "js_replace (literal p) t (b @ [c]) cs = js_replace (literal p) t (b' @ [c]) cs"
        using 1 Cons by simp
      with False show ?thesis by (simp add: Cons literal_skip del: js_replace.simps)
    qed
  qed
qed

lemma literal_split:
  assumes p: "p \<noteq> []" "CHR ''$'' \<notin> set t" and ub: "unbordered p"
  shows "js_replace (literal p) t b (u @ p @ r) =
         js_replace (literal p) t b u @ t @ js_replace (literal p) t b r"
proof (induction u arbitrary: b rule: length_induct)
  case (1 u)
  show ?case
  proof (cases u)
    case Nil
    then show ?thesis
      using literal_indep[OF p, of "b @ p" r b] by (simp add: literal_hit[OF p] literal_Nil[OF p(1)] del: js_replace.simps)
  next
    case (Cons c cs)
    show ?thesis
    proof (cases "prefix p (u @ p @ r)")
      case True
      show ?thesis
      proof (cases "length p \<le> length u")
        case True
        with \<open>prefix p (u @ p @ r)\<close> have "prefix p u"
          by (auto simp: prefix_append)
        then obtain u' where u': "u = p @ u'" by (auto elim: prefixE)
        have "length u' < length u" using p(1) u' by simp
        then have "js_replace (literal p) t (b @ p) (u' @ p @ r) =
           js_replace (literal p) t (b @ p) u' @ t @ js_replace (literal p) t (b @ p) r"
          using 1 by blast
        moreover have "js_replace (literal p) t (b @ p) r = js_replace (literal p) t b r"
          by (rule literal_indep[OF p])
        ultimately show ?thesis
          using literal_hit[OF p, of b "u' @ p @ r"] literal_hit[OF p, of b u'] by (simp add: u' del: js_replace.simps)
      next
        case False
        then have lt: "length u < length p" by simp
        from \<open>prefix p (u @ p @ r)\<close> obtain z where z: "u @ p @ r = p @ z" by (auto elim: prefixE)
        have "take (length p) (u @ p @ r) = p" using z by simp
        then have "drop (length u) (take (length p) (u @ p @ r)) = drop (length u) p" by simp
        then have "drop (length u) p = take (length p - length u) p"
          using lt by (simp add: drop_take)
        moreover have "length p - length u \<in> {1..<length p}" using lt Cons by auto
        ultimately have False using ub lt unfolding unbordered_def
          by (auto dest!: bspec[where x="length p - length u"])
        then show ?thesis ..
      qed
    next
      case False
      then have "\<not> prefix p u" by (meson prefix_order.trans prefix_append prefixI)
      have "js_replace (literal p) t (b @ [c]) (cs @ p @ r) =
           js_replace (literal p) t (b @ [c]) cs @ t @ js_replace (literal p) t (b @ [c]) r"
        using 1 Cons by simp
      moreover have "js_replace (literal p) t (b @ [c]) r = js_replace (literal p) t b r"
        by (rule literal_indep[OF p])
      ultimately show ?thesis
        using False \<open>\<not> prefix p u\<close> by (simp add: Cons literal_skip del: js_replace.simps)
    qed
  qed
qed


lemma literal_prefix_reflect:
  assumes p: "p \<noteq> []" "CHR ''$'' \<notin> set t" and t: "t \<noteq> []" "hd t = hd p"
  shows "hd p \<notin> set Y \<Longrightarrow> prefix Y (js_replace (literal p) t b s) \<Longrightarrow> prefix Y s"
proof (induction Y arbitrary: s b)
  case Nil
  show ?case by simp
next
  case (Cons y ys)
  show ?case
  proof (cases s)
    case Nil
    with Cons.prems(2) show ?thesis by (simp add: literal_Nil[OF p(1)] del: js_replace.simps)
  next
    case (Cons c cs)
    show ?thesis
    proof (cases "prefix p s")
      case True
      then obtain r where r: "s = p @ r" by (auto elim: prefixE)
      from t obtain t' where t': "t = hd p # t'" by (cases t) auto
      have "prefix (y # ys) (t @ js_replace (literal p) t (b @ p) r)"
        using Cons.prems(2) by (simp add: r literal_hit[OF p] del: js_replace.simps)
      then have "prefix (y # ys) ((hd p # t') @ js_replace (literal p) t (b @ p) r)"
        using t' by simp
      then have "y = hd p" by simp
      with Cons.prems(1) show ?thesis by simp
    next
      case False
      have "prefix (y # ys) (c # js_replace (literal p) t (b @ [c]) cs)"
        using Cons.prems(2) False by (simp add: Cons literal_skip del: js_replace.simps)
      then have "y = c" and "prefix ys (js_replace (literal p) t (b @ [c]) cs)" by simp_all
      moreover have "hd p \<notin> set ys" using Cons.prems(1) by simp
      ultimately show ?thesis using Cons.IH Cons by simp
    qed
  qed
qed

lemma two_split:
  "[q, c] = x1 @ x2 \<Longrightarrow>
   (x1 = [] \<and> x2 = [q, c]) \<or> (x1 = [q] \<and> x2 = [c]) \<or> (x1 = [q, c] \<and> x2 = [])"
  by (cases x1; cases "tl x1"; simp; cases "tl (tl x1)"; simp)

lemma slash_in_sublist: "sublist [q, CHR ''/''] P \<Longrightarrow> CHR ''/'' \<in> set P"
proof -
  assume 1: "sublist [q, CHR ''/''] P"
  from set_mono_sublist[OF 1] show "CHR ''/'' \<in> set P" by simp
qed

lemma opener_in_sublist: "sublist [q, CHR ''/''] P \<Longrightarrow> q \<in> set P"
proof -
  assume 1: "sublist [q, CHR ''/''] P"
  from set_mono_sublist[OF 1] show "q \<in> set P" by simp
qed

lemma straddle_opener_slash:
  assumes "[q, CHR ''/''] = x1 @ x2" "suffix x1 P" "prefix x2 (B @ S)"
    and "CHR ''/'' \<notin> set P" "q \<notin> set B" "q \<notin> set S" "B \<noteq> []" "hd B \<noteq> CHR ''/''"
  shows False
proof -
  from two_split[OF assms(1)]
  consider (a) "x1 = []" "x2 = [q, CHR ''/'']" | (b) "x1 = [q]" "x2 = [CHR ''/'']"
    | (c) "x1 = [q, CHR ''/'']" "x2 = []"
    by blast
  then show False
  proof cases
    case a
    have "sublist [q, CHR ''/''] (B @ S)"
      using assms(3) a(2) prefix_imp_sublist by blast
    then have "q \<in> set (B @ S)" by (rule opener_in_sublist)
    then show False using assms(5,6) by simp
  next
    case b
    obtain h t where B: "B = h # t" using assms(7) by (cases B) simp_all
    have "prefix [CHR ''/''] (B @ S)" using assms(3) b(2) by simp
    then have "h = CHR ''/''" unfolding B by simp
    then show False using assms(8) B by simp
  next
    case c
    have "sublist [q, CHR ''/''] P"
      using assms(2) c(1) suffix_imp_sublist by blast
    then have "CHR ''/'' \<in> set P" by (rule slash_in_sublist)
    then show False using assms(4) by simp
  qed
qed

lemma no_opener_slash:
  assumes "CHR ''/'' \<notin> set P" "q \<notin> set B" "q \<notin> set S" "B \<noteq> []" "hd B \<noteq> CHR ''/''"
  shows "\<not> sublist [q, CHR ''/''] (P @ B @ S)"
proof
  assume "sublist [q, CHR ''/''] (P @ B @ S)"
  then consider (l) "sublist [q, CHR ''/''] P" | (r) "sublist [q, CHR ''/''] (B @ S)"
    | (m) x1 x2 where "[q, CHR ''/''] = x1 @ x2" "suffix x1 P" "prefix x2 (B @ S)"
    using sublist_append[of "[q, CHR ''/'']" P "B @ S"] by blast
  then show False
  proof cases
    case l
    then have "CHR ''/'' \<in> set P" by (rule slash_in_sublist)
    then show False using assms(1) by simp
  next
    case r
    then have "q \<in> set (B @ S)" by (rule opener_in_sublist)
    then show False using assms(2,3) by simp
  next
    case m
    then show False by (rule straddle_opener_slash[OF _ _ _ assms])
  qed
qed


lemma literal_no_new_occurrence:
  assumes P: "P \<noteq> []" "CHR ''/'' \<notin> set P"
    and dollar: "CHR ''$'' \<notin> set (P @ B @ S)"
    and Q: "Q \<noteq> []" "CHR ''/'' \<notin> set Q" "hd P \<notin> set (tl Q)" "hd P \<noteq> CHR ''/''"
    and S: "S \<noteq> []" "last S = CHR ''/''" "last Q \<notin> set S"
    and B: "B \<noteq> []" "hd B \<noteq> CHR ''/''" "last Q \<notin> set B"
  shows "sublist (Q @ ''/'') (js_replace (literal (P @ S)) (P @ B @ S) b s) \<Longrightarrow>
         sublist (Q @ ''/'') s \<and> Q @ ''/'' \<noteq> P @ S"
proof (induction s arbitrary: b rule: length_induct)
  case (1 s)
  let ?p = "P @ S" and ?t = "P @ B @ S" and ?X = "Q @ ''/''"
  have p: "?p \<noteq> []" "CHR ''$'' \<notin> set ?t" using P dollar by simp_all
  have t: "?t \<noteq> []" "hd ?t = hd ?p" using P by simp_all
  have X: "?X = hd Q # (tl Q @ ''/'')" using Q(1) by (cases Q) auto
  have hdp: "hd ?p \<notin> set (tl Q @ ''/'')" using Q(3,4) P(1) by simp
  have q2: "sublist [last Q, CHR ''/''] ?X"
  proof -
    have "?X = butlast Q @ [last Q, CHR ''/'']" using Q(1) by simp
    then show ?thesis by (metis sublist_append_leftI)
  qed
  show ?case
  proof (cases s)
    case Nil
    with 1(2) show ?thesis by (simp add: literal_Nil[OF p(1)] del: js_replace.simps)
  next
    case (Cons c cs)
    show ?thesis
    proof (cases "prefix ?p s")
      case False
      have out: "js_replace (literal ?p) ?t b s = c # js_replace (literal ?p) ?t (b @ [c]) cs"
        using False by (simp add: Cons literal_skip del: js_replace.simps)
      from 1(2) consider "prefix ?X (c # js_replace (literal ?p) ?t (b @ [c]) cs)"
        | "sublist ?X (js_replace (literal ?p) ?t (b @ [c]) cs)"
        unfolding out by (auto simp: sublist_Cons_right)
      then show ?thesis
      proof cases
        case 1
        then have "hd Q = c" and "prefix (tl Q @ ''/'') (js_replace (literal ?p) ?t (b @ [c]) cs)"
          by (simp_all add: X)
        then have "prefix (tl Q @ ''/'') cs"
          using literal_prefix_reflect[OF p t hdp] by blast
        with \<open>hd Q = c\<close> have "prefix ?X s" by (simp add: X Cons)
        with False show ?thesis by auto
      next
        case 2
        moreover have "length cs < length s" using Cons by simp
        ultimately have "sublist ?X cs \<and> ?X \<noteq> ?p" using 1(1) by blast
        then show ?thesis by (simp add: Cons sublist_Cons_right)
      qed
    next
      case True
      then obtain r where r: "s = ?p @ r" by (auto elim: prefixE)
      have lr: "length r < length s" using P(1) r by simp
      let ?J = "js_replace (literal ?p) ?t (b @ ?p) r"
      have out: "js_replace (literal ?p) ?t b s = ?t @ ?J"
        unfolding r by (rule literal_hit[OF p])
      have no_t: "\<not> sublist ?X ?t"
      proof
        assume "sublist ?X ?t"
        with q2 have "sublist [last Q, CHR ''/''] ?t" by (rule sublist_order.order.trans)
        with no_opener_slash[OF P(2) B(3) S(3) B(1,2)] show False by simp
      qed
      from 1(2) have "sublist ?X (?t @ ?J)" unfolding out .
      then consider "sublist ?X ?t" | "sublist ?X ?J"
        | x1 x2 where "?X = x1 @ x2" "suffix x1 ?t" "prefix x2 ?J"
        using sublist_append[of ?X ?t ?J] by blast
      then have "sublist ?X ?J"
      proof cases
        case 1
        with no_t show ?thesis by simp
      next
        case 2
        then show ?thesis .
      next
        case 3
        show ?thesis
        proof (cases "x1 = []")
          case True
          with 3 show ?thesis by auto
        next
          case False
          show ?thesis
          proof (cases "x2 = []")
            case True
            with 3 have "suffix ?X ?t" by simp
            then have "sublist ?X ?t" by (rule suffix_imp_sublist)
            with no_t show ?thesis by simp
          next
            case x2: False
            have "last x1 = last ?t" using 3(2) False by (auto simp: suffix_def)
            also have "\<dots> = CHR ''/''" using S by simp
            finally have "CHR ''/'' \<in> set x1" using False by (metis last_in_set)
            moreover have "prefix x1 Q"
            proof -
              from 3(1) x2 have "x1 @ butlast x2 @ [last x2] = Q @ ''/''" by simp
              then have "x1 @ butlast x2 = Q" by (metis append_assoc append1_eq_conv)
              then show ?thesis by (metis prefixI)
            qed
            ultimately have "CHR ''/'' \<in> set Q" using set_mono_prefix[of x1 Q] by blast
            with Q(2) show ?thesis by simp
          qed
        qed
      qed
      then have "sublist ?X r \<and> ?X \<noteq> ?p" using 1(1) lr by blast
      moreover have "sublist r ((P @ S) @ r)" by (rule sublist_append_leftI)
      ultimately show ?thesis unfolding r by (blast intro: sublist_order.order.trans)
    qed
  qed
qed


subsection \<open>The URL passes\<close>

lemma literal_identity:
  "\<not> sublist p s \<Longrightarrow> js_replace (literal p) t b s = s"
proof (rule js_replace_no_match)
  fix i
  assume ns: "\<not> sublist p s"
  show "literal p (drop i s) = None"
  proof (rule ccontr)
    assume "literal p (drop i s) \<noteq> None"
    then have "prefix p (drop i s)" by (simp add: literal_def split: if_splits)
    then have "sublist p (drop i s)" by (rule prefix_imp_sublist)
    moreover have "sublist (drop i s) s" by (rule sublist_drop)
    ultimately have "sublist p s" by (rule sublist_order.order.trans)
    with ns show False by simp
  qed
qed

lemma url_pass_identity:
  assumes "S \<in> set path_prefixes" "\<not> sublist (P @ ''/'') s"
  shows "url_pass P S B s = s"
proof -
  from assms(1) obtain S' where "S = ''/'' @ S'" by (auto simp: path_prefixes_def)
  then have "sublist (P @ ''/'') (P @ S)" by (metis append_assoc sublist_append_rightI)
  then have "\<not> sublist (P @ S) s"
    using assms(2) by (blast intro: sublist_order.order.trans)
  then show ?thesis unfolding url_pass_def by (rule literal_identity)
qed

lemma url_pass_no_new:
  assumes B: "plain_base B" and P: "P \<in> set openers" and S: "S \<in> set path_prefixes"
    and Q: "Q \<in> set openers"
  shows "sublist (Q @ ''/'') (url_pass P S B s) \<Longrightarrow> sublist (Q @ ''/'') s \<and> Q @ ''/'' \<noteq> P @ S"
proof -
  have 1: "P \<noteq> []" "CHR ''/'' \<notin> set P" "hd P \<noteq> CHR ''/''"
    using P by (auto simp: openers_def)
  have 2: "CHR ''$'' \<notin> set (P @ B @ S)"
    using P S B by (auto simp: openers_def path_prefixes_def plain_base_def)
  have 3: "Q \<noteq> []" "CHR ''/'' \<notin> set Q" using Q by (auto simp: openers_def)
  have 4: "hd P \<notin> set (tl Q)" using P Q by (auto simp: openers_def)
  have 5: "S \<noteq> []" "last S = CHR ''/''" using S by (auto simp: path_prefixes_def)
  have 6: "last Q \<notin> set S" using Q S by (auto simp: openers_def path_prefixes_def)
  have 7: "B \<noteq> []" "hd B \<noteq> CHR ''/''" using B by (auto simp: plain_base_def)
  have 8: "last Q \<notin> set B" using Q B by (auto simp: openers_def plain_base_def)
  show "sublist (Q @ ''/'') (url_pass P S B s) \<Longrightarrow> sublist (Q @ ''/'') s \<and> Q @ ''/'' \<noteq> P @ S"
    unfolding url_pass_def
    by (rule literal_no_new_occurrence[OF 1(1,2) 2 3 4 1(3) 5 6 7 8])
qed


lemma no_root_relative_iff:
  "no_root_relative s \<longleftrightarrow> (\<forall>Q \<in> set openers. \<not> sublist (Q @ ''/'') s)"
  by (simp add: no_root_relative_def openers_def)

lemma url_pass_clean_identity:
  assumes "no_root_relative s" "P \<in> set openers" "S \<in> set path_prefixes"
  shows "url_pass P S B s = s"
  using assms url_pass_identity no_root_relative_iff by blast

lemma url_stage_clean_identity:
  assumes "no_root_relative s" "S \<in> set path_prefixes"
  shows "url_stage S B s = s"
proof -
  have o: "''src=\"'' \<in> set openers" "''href=\"'' \<in> set openers" "''url('' \<in> set openers"
    by (simp_all add: openers_def)
  show ?thesis
    unfolding url_stage_def
    using assms by (simp add: url_pass_clean_identity[OF assms(1) _ assms(2)] o)
qed

lemma url_passes_clean_identity:
  assumes "no_root_relative s"
  shows "url_passes s B = s"
  unfolding url_passes_def
  using assms by (simp add: url_stage_clean_identity path_prefixes_def)

lemma url_pass_keeps:
  assumes "plain_base B" "P \<in> set openers" "S \<in> set path_prefixes" "Q \<in> set openers"
    "\<not> sublist (Q @ ''/'') s"
  shows "\<not> sublist (Q @ ''/'') (url_pass P S B s)"
  using url_pass_no_new[OF assms(1-4)] assms(5) by blast

lemma url_pass_bare:
  assumes "plain_base B" "P \<in> set openers"
  shows "\<not> sublist (P @ ''/'') (url_pass P ''/'' B s)"
  using url_pass_no_new[OF assms(1,2) _ assms(2), of "''/''" s] by (auto simp: path_prefixes_def)

lemma bare_stage_clean:
  assumes B: "plain_base B"
  shows "no_root_relative (url_stage ''/'' B s)"
proof -
  have o: "''src=\"'' \<in> set openers" "''href=\"'' \<in> set openers" "''url('' \<in> set openers"
    by (simp_all add: openers_def)
  have t: "''/'' \<in> set path_prefixes" by (simp add: path_prefixes_def)
  let ?a = "url_pass ''src=\"'' ''/'' B s"
  let ?b = "url_pass ''href=\"'' ''/'' B ?a"
  let ?c = "url_pass ''url('' ''/'' B ?b"
  have a1: "\<not> sublist (''src=\"'' @ ''/'') ?a" by (rule url_pass_bare[OF B o(1)])
  have b1: "\<not> sublist (''src=\"'' @ ''/'') ?b" by (rule url_pass_keeps[OF B o(2) t o(1) a1])
  have b2: "\<not> sublist (''href=\"'' @ ''/'') ?b" by (rule url_pass_bare[OF B o(2)])
  have c1: "\<not> sublist (''src=\"'' @ ''/'') ?c" by (rule url_pass_keeps[OF B o(3) t o(1) b1])
  have c2: "\<not> sublist (''href=\"'' @ ''/'') ?c" by (rule url_pass_keeps[OF B o(3) t o(2) b2])
  have c3: "\<not> sublist (''url('' @ ''/'') ?c" by (rule url_pass_bare[OF B o(3)])
  show ?thesis unfolding url_stage_def no_root_relative_def using c1 c2 c3 by simp
qed

lemma url_passes_clean:
  assumes B: "plain_base B"
  shows "no_root_relative (url_passes s B)"
proof -
  have "no_root_relative (url_stage ''/'' B (url_stage ''/assets/'' B s))"
    by (rule bare_stage_clean[OF B])
  moreover have "url_stage ''/videos/'' B (url_stage ''/'' B (url_stage ''/assets/'' B s))
      = url_stage ''/'' B (url_stage ''/assets/'' B s)"
    by (rule url_stage_clean_identity[OF calculation]) (simp add: path_prefixes_def)
  ultimately show ?thesis unfolding url_passes_def by simp
qed

lemma url_pass_unfold:
  "js_replace (literal (P @ S)) (P @ B @ S) [] x = url_pass P S B x"
  by (simp add: url_pass_def)
lemma sanitizeHTML_url_passes:
  "sanitizeHTML h B = fold removeTag tagsToRemove (url_passes h B)"
proof -
  note e = url_pass_unfold[of \<open>''src="''\<close> "''/assets/''" B, simplified]
    url_pass_unfold[of \<open>''href="''\<close> "''/assets/''" B, simplified]
    url_pass_unfold[of \<open>''url(''\<close> "''/assets/''" B, simplified]
    url_pass_unfold[of \<open>''src="''\<close> "''/''" B, simplified]
    url_pass_unfold[of \<open>''href="''\<close> "''/''" B, simplified]
    url_pass_unfold[of \<open>''url(''\<close> "''/''" B, simplified]
    url_pass_unfold[of \<open>''src="''\<close> "''/videos/''" B, simplified]
    url_pass_unfold[of \<open>''href="''\<close> "''/videos/''" B, simplified]
    url_pass_unfold[of \<open>''url(''\<close> "''/videos/''" B, simplified]
  show ?thesis
    unfolding sanitizeHTML_def url_passes_def url_stage_def Let_def
    by (simp only: e append.simps)
qed
lemma sanitizeHTML_without_videos_stages:
  "sanitizeHTML_without_videos h B =
     fold removeTag tagsToRemove (url_stage ''/'' B (url_stage ''/assets/'' B h))"
proof -
  note e = url_pass_unfold[of \<open>''src="''\<close> "''/assets/''" B, simplified]
    url_pass_unfold[of \<open>''href="''\<close> "''/assets/''" B, simplified]
    url_pass_unfold[of \<open>''url(''\<close> "''/assets/''" B, simplified]
    url_pass_unfold[of \<open>''src="''\<close> "''/''" B, simplified]
    url_pass_unfold[of \<open>''href="''\<close> "''/''" B, simplified]
    url_pass_unfold[of \<open>''url(''\<close> "''/''" B, simplified]
  show ?thesis
    unfolding sanitizeHTML_without_videos_def url_stage_def Let_def
    by (simp only: e append.simps)
qed

subsection \<open>The removal of tags\<close>

lemma find_ci_None:
  "find_ci p s = None \<Longrightarrow> \<not> prefix_ci p (drop i s)"
proof (induction s arbitrary: i)
  case Nil
  then show ?case by (simp split: if_splits)
next
  case (Cons c cs)
  then show ?case by (cases i) (simp_all split: if_splits)
qed

lemma removeTag_identity:
  assumes "find_ci (CHR ''<'' # tag) s = None"
  shows "removeTag tag s = s"
proof -
  have n: "\<And>i. \<not> prefix_ci (CHR ''<'' # tag) (drop i s)" using find_ci_None[OF assms] .
  have "js_replace (elementRegExp tag) [] [] s = s"
    by (rule js_replace_no_match) (simp add: elementRegExp_def n del: prefix_ci.simps)
  moreover have "js_replace (selfClosingRegExp tag) [] [] s = s"
    by (rule js_replace_no_match) (simp add: selfClosingRegExp_def n del: prefix_ci.simps)
  ultimately show ?thesis by (simp add: removeTag_def)
qed

lemma remove_tags_identity:
  assumes "find_ci ''<meta'' s = None" "find_ci ''<noscript'' s = None"
  shows "fold removeTag tagsToRemove s = s"
proof -
  have "removeTag ''meta'' s = s" by (rule removeTag_identity) (use assms(1) in simp)
  moreover have "removeTag ''noscript'' s = s" by (rule removeTag_identity) (use assms(2) in simp)
  ultimately show ?thesis by (simp add: tagsToRemove_def)
qed

subsection \<open>The presenter\<close>

lemma mount_shows_tree: "shows_tree (mount n l) \<and> node (mount n l) = n \<and> level (mount n l) = l"
  by (induction n l rule: mount.induct) (auto simp: list_all_iff comp_def intro!: map_idI)

lemma onClick_node: "node (onClick p v) = node v \<and> level (onClick p v) = level v"
  by (induction p v rule: onClick.induct) auto

lemma onClick_shows_tree: "shows_tree v \<Longrightarrow> shows_tree (onClick p v)"
proof (induction p v rule: onClick.induct)
  case (1 n lvl expanded kids)
  then show ?case
    by (auto simp: list_all_iff comp_def mount_shows_tree hasChildren_def intro!: map_idI)
next
  case (2 i path n lvl expanded kids)
  show ?case
  proof (cases "i < length kids")
    case True
    have a: "shows_tree (kids ! i)" using 2(2) True by (auto simp: list_all_length)
    have b: "shows_tree (onClick path (kids ! i))" using 2(1)[OF True a] .
    have c: "map node (kids[i := onClick path (kids ! i)]) = map node kids"
      using True by (simp add: map_update onClick_node list_update_same_conv)
    show ?thesis using 2(2) True b c
      by (auto simp: list_all_length nth_list_update onClick_node)
  next
    case False
    with 2(2) show ?thesis by simp
  qed
qed

lemma clicks_keep_tree:
  "shows_tree v \<Longrightarrow> shows_tree (fold onClick ps v) \<and> node (fold onClick ps v) = node v"
  by (induction ps arbitrary: v) (simp_all add: onClick_shows_tree onClick_node)

subsection \<open>Deleting replacements\<close>


section \<open>The claims\<close>

subsection \<open>C1: the tree built for the empty string and for a single element\<close>






subsection \<open>C2: references that already carry a scheme\<close>




subsection \<open>C3: rewriting twice\<close>

text \<open>
  The claim fails: the removal of a \<open>meta\<close> tag can bring a quote and a slash together,
  and a second run of the rewriter then prefixes the reference.
\<close>

theorem C3_counterexample:
  \<open>sanitizeHTML (sanitizeHTML ''src="<meta>/x"'' ''https://ex.com'') ''https://ex.com''
     \<noteq> sanitizeHTML ''src="<meta>/x"'' ''https://ex.com''\<close>
  by code_simp

text \<open>
  Claim C3, amended. The rewriter is its nine URL passes followed by the removal of
  tags. For every html string and every baseUrl that is not empty, does not begin with
  a slash and holds no dollar sign, double quote or opening parenthesis, the nine URL
  passes leave no occurrence of \<^verbatim>\<open>src="/\<close>, \<^verbatim>\<open>href="/\<close> or \<^verbatim>\<open>url(/\<close>, and running
  them a second time changes nothing.
\<close>

theorem C3_url_passes_idempotent:
  assumes "plain_base urlToScrape"
  shows "sanitizeHTML htmlString urlToScrape
           = fold removeTag tagsToRemove (url_passes htmlString urlToScrape)
         \<and> no_root_relative (url_passes htmlString urlToScrape)
         \<and> url_passes (url_passes htmlString urlToScrape) urlToScrape
           = url_passes htmlString urlToScrape"
  using url_passes_clean[OF assms, of htmlString]
  by (simp add: sanitizeHTML_url_passes url_passes_clean_identity)

theorem C3_witness:
  \<open>plain_base ''https://ex.com''
   \<and> url_passes (url_passes ''<img src="/a.png">'' ''https://ex.com'') ''https://ex.com''
       = url_passes ''<img src="/a.png">'' ''https://ex.com''\<close>
proof -
  have a: "plain_base ''https://ex.com''" by (simp add: plain_base_def)
  show ?thesis using C3_url_passes_idempotent[OF a, of \<open>''<img src="/a.png">''\<close>] a by blast
qed

subsection \<open>C4: a \<open>meta\<close> tag inside a \<open>div\<close>\<close>

lemma tree_of_div_p_hi:
  "parseHTMLToTree (html_document [Element ''DIV'' [] [Element ''P'' [] [Text ''hi'']]]) =
     [TreeNode ''head'' [] None (Some []),
      TreeNode ''body''
        [TreeNode ''div'' [TreeNode ''p'' [] None (Some ''hi'')] None (Some [])]
        None (Some [])]"
  by code_simp

lemma meta_example_no_root_relative:
  \<open>no_root_relative ''<div><meta charset="utf-8"><p>hi</p></div>''\<close>
  unfolding no_root_relative_def by code_simp

lemma meta_example_tags:
  \<open>fold removeTag tagsToRemove ''<div><meta charset="utf-8"><p>hi</p></div>'' = ''<div><p>hi</p></div>''\<close>
  by code_simp

lemma sanitize_meta_example:
  \<open>sanitizeHTML ''<div><meta charset="utf-8"><p>hi</p></div>'' urlToScrape = ''<div><p>hi</p></div>''\<close>
  by (simp only: sanitizeHTML_url_passes url_passes_clean_identity[OF meta_example_no_root_relative]
      meta_example_tags)

lemma no_meta_left: \<open>find_ci ''<meta'' ''<div><p>hi</p></div>'' = None\<close>
  by code_simp

text \<open>
  The claim fails in its second half: the tree built from the parsed output does not
  have \<open>div\<close> as its one root.
\<close>

theorem C4_counterexample:
  "map name (parseHTMLToTree (html_document [Element ''DIV'' [] [Element ''P'' [] [Text ''hi'']]]))
     \<noteq> [''div'']"
  unfolding tree_of_div_p_hi by simp

text \<open>
  Claim C4, amended. On the input \<^verbatim>\<open><div><meta charset="utf-8"><p>hi</p></div>\<close>, with
  any baseUrl, the output of the rewriter is \<^verbatim>\<open><div><p>hi</p></div>\<close> and holds no
  \<open>meta\<close> tag. The tree built from the document that the parser makes of that output
  has the two roots \<open>head\<close> and \<open>body\<close>; the single child of \<open>body\<close> is the node
  \<open>div\<close>, whose single child is the node \<open>p\<close> with textContent \<open>hi\<close>.
\<close>

theorem C4_meta_removed:
  \<open>sanitizeHTML ''<div><meta charset="utf-8"><p>hi</p></div>'' urlToScrape = ''<div><p>hi</p></div>''
   \<and> find_ci ''<meta'' (sanitizeHTML ''<div><meta charset="utf-8"><p>hi</p></div>'' urlToScrape) = None
   \<and> parseHTMLToTree (html_document [Element ''DIV'' [] [Element ''P'' [] [Text ''hi'']]]) =
     [TreeNode ''head'' [] None (Some []),
      TreeNode ''body''
        [TreeNode ''div'' [TreeNode ''p'' [] None (Some ''hi'')] None (Some [])]
        None (Some [])]\<close>
  unfolding sanitize_meta_example using no_meta_left tree_of_div_p_hi by blast

subsection \<open>C5: the proxied image URL\<close>

text \<open>
  The claim fails: the pattern of the source names the host \<open>www.orchids.app\<close>, so the
  reference on the host \<open>site\<close> is not rewritten.
\<close>

theorem C5_counterexample:
  \<open>ResultsPage_html ''src="https://site/_next/image?url=https%3A%2F%2Fcdn%2Fimg.png&w=640&q=75"''
     \<noteq> Inr ''src="https://cdn/img.png"''\<close>
  by code_simp

text \<open>
  Claim C5, amended. The post-processor rewrites the proxied image reference of the
  host \<open>www.orchids.app\<close> only: applied to
  \<^verbatim>\<open>src="https://www.orchids.app/_next/image?url=https%3A%2F%2Fcdn%2Fimg.png&w=640&q=75"\<close>
  it yields \<^verbatim>\<open>src="https://cdn/img.png"\<close>, the target decoded and the width and quality
  parameters dropped; the same reference on the host \<open>site\<close> is returned as it is.
\<close>

theorem C5_orchids_host_only:
  \<open>ResultsPage_html
       ''src="https://www.orchids.app/_next/image?url=https%3A%2F%2Fcdn%2Fimg.png&w=640&q=75"''
     = Inr ''src="https://cdn/img.png"''
   \<and> ResultsPage_html ''src="https://site/_next/image?url=https%3A%2F%2Fcdn%2Fimg.png&w=640&q=75"''
     = Inr ''src="https://site/_next/image?url=https%3A%2F%2Fcdn%2Fimg.png&w=640&q=75"''\<close>
  by code_simp

subsection \<open>C7: the passes for the video paths\<close>

text \<open>
  The claim fails for a baseUrl that begins with \<^verbatim>\<open>/videos\<close> and for an absolute
  baseUrl that ends with \<^verbatim>\<open>src="\<close>: the bare-slash pass itself produces a reference
  that the video pass rewrites once more.
\<close>

theorem C7_counterexample:
  \<open>sanitizeHTML_without_videos ''src="/a"'' ''/videos'' \<noteq> sanitizeHTML ''src="/a"'' ''/videos''
   \<and> sanitizeHTML_without_videos ''src="/videos/v.mp4"'' ''https://ex.com/?next=src="''
       \<noteq> sanitizeHTML ''src="/videos/v.mp4"'' ''https://ex.com/?next=src="''\<close>
  by code_simp

text \<open>
  Claim C7, amended. For every html string and every baseUrl that is not empty, does
  not begin with a slash and holds no dollar sign, double quote or opening parenthesis,
  the rewriter without the three substitutions for \<^verbatim>\<open>/videos/\<close> computes the same
  output as the full rewriter: after the bare-slash passes no occurrence of
  \<^verbatim>\<open>src="/\<close>, \<^verbatim>\<open>href="/\<close> or \<^verbatim>\<open>url(/\<close> is left.
\<close>

theorem C7_videos_pass_unreachable:
  assumes "plain_base urlToScrape"
  shows "sanitizeHTML_without_videos htmlString urlToScrape = sanitizeHTML htmlString urlToScrape"
proof -
  let ?x = "url_stage ''/'' urlToScrape (url_stage ''/assets/'' urlToScrape htmlString)"
  have "no_root_relative ?x" by (rule bare_stage_clean[OF assms])
  then have "url_stage ''/videos/'' urlToScrape ?x = ?x"
    by (rule url_stage_clean_identity) (simp add: path_prefixes_def)
  then show ?thesis
    by (simp add: sanitizeHTML_url_passes sanitizeHTML_without_videos_stages url_passes_def)
qed

theorem C7_witness:
  \<open>plain_base ''https://ex.com''
   \<and> sanitizeHTML_without_videos ''<video src="/videos/v.mp4">'' ''https://ex.com''
       = sanitizeHTML ''<video src="/videos/v.mp4">'' ''https://ex.com''\<close>
proof -
  have a: "plain_base ''https://ex.com''" by (simp add: plain_base_def)
  show ?thesis
    using C7_videos_pass_unreachable[OF a, of \<open>''<video src="/videos/v.mp4">''\<close>] a by blast
qed

subsection \<open>C8: toggling a node\<close>

text \<open>
  Claim C8. A click changes the flag \<open>isExpanded\<close> of one instance and mounts or
  unmounts the instances below it; the node that an instance shows is a prop and is
  never written. After any sequence of clicks on the presenter of a built tree, the
  root instance still shows the whole tree as it was built, and every rendered instance
  shows the child of its parent's node at its index: tagName, attributes, textContent
  and children of every node are unchanged.
\<close>

theorem C8_toggle_keeps_tree:
  "node (fold onClick paths (mount n 0)) = n \<and> shows_tree (fold onClick paths (mount n 0))"
  using clicks_keep_tree[of "mount n 0" paths] mount_shows_tree[of n 0] by simp

theorem C8_witness:
  "node (fold onClick [[0], []]
       (mount (TreeNode ''body'' [TreeNode ''div'' [] None (Some ''x'')] None (Some [])) 0))
     = TreeNode ''body'' [TreeNode ''div'' [] None (Some ''x'')] None (Some [])
   \<and> shows_tree (fold onClick [[0], []]
       (mount (TreeNode ''body'' [TreeNode ''div'' [] None (Some ''x'')] None (Some [])) 0))"
  by (rule C8_toggle_keeps_tree)


subsection \<open>C9: tags whose name begins with a name of the removal set\<close>







subsection \<open>C10: protocol-relative references\<close>

lemma bare_patterns_unbordered:
  \<open>unbordered ''src="/''\<close> \<open>unbordered ''href="/''\<close> \<open>unbordered ''url(/''\<close>
  by code_simp+

lemma protocol_relative_pass:
  assumes "CHR ''$'' \<notin> set B" "P \<in> set openers"
  shows "url_pass P ''/'' B (pre @ P @ ''//'' @ rest)
         = url_pass P ''/'' B pre @ P @ B @ ''//'' @ url_pass P ''/'' B rest"
proof -
  let ?p = "P @ ''/''" and ?t = "P @ B @ ''/''"
  have p: "?p \<noteq> []" "CHR ''$'' \<notin> set ?t" using assms by (auto simp: openers_def)
  have ub: "unbordered ?p" using assms(2) bare_patterns_unbordered by (auto simp: openers_def)
  have 1: "js_replace (literal ?p) ?t [] (pre @ ?p @ (''/'' @ rest))
      = js_replace (literal ?p) ?t [] pre @ ?t @ js_replace (literal ?p) ?t [] (''/'' @ rest)"
    by (rule literal_split[OF p ub])
  have "\<not> prefix ?p (CHR ''/'' # rest)" using assms(2) by (auto simp: openers_def)
  then have "js_replace (literal ?p) ?t [] (CHR ''/'' # rest)
      = CHR ''/'' # js_replace (literal ?p) ?t ([] @ [CHR ''/'']) rest"
    by (rule literal_skip)
  also have "js_replace (literal ?p) ?t ([] @ [CHR ''/'']) rest = js_replace (literal ?p) ?t [] rest"
    by (rule literal_indep[OF p])
  finally have 2: "js_replace (literal ?p) ?t [] (''/'' @ rest)
      = ''/'' @ js_replace (literal ?p) ?t [] rest" by simp
  show ?thesis unfolding url_pass_def using 1 unfolding 2 by simp
qed

lemma Canonicalize_less_than: "Canonicalize c = CHR ''<'' \<Longrightarrow> c = CHR ''<''"
proof (rule ccontr)
  assume a: "Canonicalize c = CHR ''<''" and n: "c \<noteq> CHR ''<''"
  then have r: "97 \<le> (of_char c :: nat)" "(of_char c :: nat) \<le> 122"
    and e: "char_of ((of_char c :: nat) - 32) = CHR ''<''"
    by (auto simp: Canonicalize_def split: if_splits)
  from e have "(of_char (char_of ((of_char c :: nat) - 32)) :: nat) = of_char CHR ''<''" by simp
  then have "((of_char c :: nat) - 32) mod 256 = 60" by simp
  with r show False by simp
qed

lemma find_ci_no_less_than:
  "CHR ''<'' \<notin> set s \<Longrightarrow> find_ci (CHR ''<'' # p) s = None"
proof (induction s)
  case Nil
  show ?case by simp
next
  case (Cons c s)
  have "Canonicalize CHR ''<'' = CHR ''<''" by (simp add: Canonicalize_def)
  then have "\<not> prefix_ci (CHR ''<'' # p) (c # s)"
    using Cons.prems Canonicalize_less_than[of c] by auto
  then show ?case using Cons by simp
qed

lemma protocol_relative_example:
  assumes B: "plain_base B" and lt: "CHR ''<'' \<notin> set B"
  shows \<open>sanitizeHTML ''src="//host/path"'' B = ''src="'' @ B @ ''//host/path"''\<close>
proof -
  let ?h = \<open>''src="//host/path"''\<close>
  let ?x = \<open>''src="'' @ B @ ''//host/path"''\<close>
  have d: "CHR ''$'' \<notin> set B" using B by (simp add: plain_base_def)
  have o: \<open>''src="'' \<in> set openers\<close> \<open>''href="'' \<in> set openers\<close> \<open>''url('' \<in> set openers\<close>
    by (simp_all add: openers_def)
  have t: "''/'' \<in> set path_prefixes" by (simp add: path_prefixes_def)
  have a1: \<open>\<not> sublist (''src="'' @ ''/assets/'') ?h\<close> by code_simp
  have a2: \<open>\<not> sublist (''href="'' @ ''/'') ?h\<close> by code_simp
  have a3: \<open>\<not> sublist (''url('' @ ''/'') ?h\<close> by code_simp
  have a4: \<open>\<not> sublist (''src="'' @ ''/'') ''host/path"''\<close> by code_simp
  have s1: \<open>url_pass ''src="'' ''/assets/'' B ?h = ?h\<close>
    unfolding url_pass_def by (rule literal_identity[OF a1])
  have s2: \<open>url_pass ''href="'' ''/assets/'' B ?h = ?h\<close>
    by (rule url_pass_identity[OF _ a2]) (simp add: path_prefixes_def)
  have s3: \<open>url_pass ''url('' ''/assets/'' B ?h = ?h\<close>
    by (rule url_pass_identity[OF _ a3]) (simp add: path_prefixes_def)
  have assets: "url_stage ''/assets/'' B ?h = ?h"
    unfolding url_stage_def s1 s2 s3 ..
  have \<open>url_pass ''src="'' ''/'' B ([] @ ''src="'' @ ''//'' @ ''host/path"'')
      = url_pass ''src="'' ''/'' B [] @ ''src="'' @ B @ ''//'' @ url_pass ''src="'' ''/'' B ''host/path"''\<close>
    by (rule protocol_relative_pass[OF d o(1)])
  moreover have \<open>url_pass ''src="'' ''/'' B [] = []\<close>
    unfolding url_pass_def by (rule literal_Nil) simp
  moreover have \<open>url_pass ''src="'' ''/'' B ''host/path"'' = ''host/path"''\<close>
    unfolding url_pass_def by (rule literal_identity[OF a4])
  ultimately have b1: \<open>url_pass ''src="'' ''/'' B ?h = ?x\<close> by simp
  have k2: \<open>\<not> sublist (''href="'' @ ''/'') (url_pass ''src="'' ''/'' B ?h)\<close>
    by (rule url_pass_keeps[OF B o(1) t o(2) a2])
  have k3: \<open>\<not> sublist (''url('' @ ''/'') (url_pass ''src="'' ''/'' B ?h)\<close>
    by (rule url_pass_keeps[OF B o(1) t o(3) a3])
  have b2: \<open>url_pass ''href="'' ''/'' B ?x = ?x\<close>
    by (rule url_pass_identity[OF t k2[unfolded b1]])
  have b3: \<open>url_pass ''url('' ''/'' B ?x = ?x\<close>
    by (rule url_pass_identity[OF t k3[unfolded b1]])
  have bare: "url_stage ''/'' B ?h = ?x"
    unfolding url_stage_def b1 b2 b3 ..
  have "no_root_relative (url_stage ''/'' B ?h)" by (rule bare_stage_clean[OF B])
  then have "no_root_relative ?x" unfolding bare .
  then have videos: "url_stage ''/videos/'' B ?x = ?x"
    by (rule url_stage_clean_identity) (simp add: path_prefixes_def)
  have u: "url_passes ?h B = ?x"
    unfolding url_passes_def assets bare videos ..
  have nl: "CHR ''<'' \<notin> set ?x" using lt by simp
  have m1: "find_ci (CHR ''<'' # ''meta'') ?x = None" by (rule find_ci_no_less_than[OF nl])
  have m2: "find_ci (CHR ''<'' # ''noscript'') ?x = None" by (rule find_ci_no_less_than[OF nl])
  have "fold removeTag tagsToRemove ?x = ?x" by (rule remove_tags_identity[OF m1 m2])
  then show ?thesis by (simp only: sanitizeHTML_url_passes u)
qed

text \<open>
  The claim fails for a baseUrl that the template does not insert as it stands: with
  the empty baseUrl the reference passes through unchanged, and a baseUrl holding
  \<open>$$\<close> is inserted with a single dollar sign.
\<close>

theorem C10_counterexample:
  \<open>sanitizeHTML ''src="//host/path"'' [] = ''src="//host/path"''
   \<and> sanitizeHTML ''src="//host/path"'' ''https://ex.com/$$'' \<noteq> ''src="https://ex.com/$$//host/path"''\<close>
  by code_simp

text \<open>
  Claim C10, amended. For every baseUrl without a dollar sign and every input that
  holds \<^verbatim>\<open>src="//host/path\<close> (or \<^verbatim>\<open>href="//\<close>, or \<^verbatim>\<open>url(//\<close>), the bare-slash pass for that
  opener matches the leading slash there and writes the opener, the baseUrl and the two
  slashes; the text in front and the text behind are rewritten by the same pass on their
  own. So a protocol-relative reference is altered whenever the baseUrl is not empty: for
  a baseUrl that does not begin with a slash and holds no dollar sign, double quote,
  opening parenthesis or opening angle bracket, the rewriter turns
  \<^verbatim>\<open>src="//host/path"\<close> into \<^verbatim>\<open>src="\<close>, the baseUrl and \<^verbatim>\<open>//host/path"\<close>.
\<close>

theorem C10_protocol_relative_prefixed:
  assumes "CHR ''$'' \<notin> set urlToScrape"
  shows \<open>js_replace (literal ''src="/'') (''src="'' @ urlToScrape @ ''/'') [] (pre @ ''src="//'' @ rest)
       = js_replace (literal ''src="/'') (''src="'' @ urlToScrape @ ''/'') [] pre
         @ ''src="'' @ urlToScrape @ ''//''
         @ js_replace (literal ''src="/'') (''src="'' @ urlToScrape @ ''/'') [] rest
     \<and> js_replace (literal ''href="/'') (''href="'' @ urlToScrape @ ''/'') [] (pre @ ''href="//'' @ rest)
       = js_replace (literal ''href="/'') (''href="'' @ urlToScrape @ ''/'') [] pre
         @ ''href="'' @ urlToScrape @ ''//''
         @ js_replace (literal ''href="/'') (''href="'' @ urlToScrape @ ''/'') [] rest
     \<and> js_replace (literal ''url(/'') (''url('' @ urlToScrape @ ''/'') [] (pre @ ''url(//'' @ rest)
       = js_replace (literal ''url(/'') (''url('' @ urlToScrape @ ''/'') [] pre
         @ ''url('' @ urlToScrape @ ''//''
         @ js_replace (literal ''url(/'') (''url('' @ urlToScrape @ ''/'') [] rest
     \<and> (plain_base urlToScrape \<and> CHR ''<'' \<notin> set urlToScrape \<longrightarrow>
          sanitizeHTML ''src="//host/path"'' urlToScrape = ''src="'' @ urlToScrape @ ''//host/path"'')\<close>
proof -
  note a = protocol_relative_pass[OF assms, of \<open>''src="''\<close> pre rest, unfolded url_pass_def]
  note b = protocol_relative_pass[OF assms, of \<open>''href="''\<close> pre rest, unfolded url_pass_def]
  note c = protocol_relative_pass[OF assms, of \<open>''url(''\<close> pre rest, unfolded url_pass_def]
  have a': \<open>''src="'' \<in> set openers\<close> and b': \<open>''href="'' \<in> set openers\<close>
    and c': \<open>''url('' \<in> set openers\<close> by (simp_all add: openers_def)
  have pass: \<open>js_replace (literal ''src="/'') (''src="'' @ urlToScrape @ ''/'') [] (pre @ ''src="//'' @ rest)
       = js_replace (literal ''src="/'') (''src="'' @ urlToScrape @ ''/'') [] pre
         @ ''src="'' @ urlToScrape @ ''//''
         @ js_replace (literal ''src="/'') (''src="'' @ urlToScrape @ ''/'') [] rest
     \<and> js_replace (literal ''href="/'') (''href="'' @ urlToScrape @ ''/'') [] (pre @ ''href="//'' @ rest)
       = js_replace (literal ''href="/'') (''href="'' @ urlToScrape @ ''/'') [] pre
         @ ''href="'' @ urlToScrape @ ''//''
         @ js_replace (literal ''href="/'') (''href="'' @ urlToScrape @ ''/'') [] rest
     \<and> js_replace (literal ''url(/'') (''url('' @ urlToScrape @ ''/'') [] (pre @ ''url(//'' @ rest)
       = js_replace (literal ''url(/'') (''url('' @ urlToScrape @ ''/'') [] pre
         @ ''url('' @ urlToScrape @ ''//''
         @ js_replace (literal ''url(/'') (''url('' @ urlToScrape @ ''/'') [] rest\<close>
    using a[OF a'] b[OF b'] c[OF c'] by simp
  have whole: \<open>plain_base urlToScrape \<and> CHR ''<'' \<notin> set urlToScrape \<longrightarrow>
      sanitizeHTML ''src="//host/path"'' urlToScrape = ''src="'' @ urlToScrape @ ''//host/path"''\<close>
    using protocol_relative_example by blast
  show ?thesis using pass whole by blast
qed

theorem C10_witness:
  \<open>CHR ''$'' \<notin> set ''https://ex.com''
   \<and> js_replace (literal ''src="/'') (''src="'' @ ''https://ex.com'' @ ''/'') [] (''<img '' @ ''src="//'' @ ''host/path">'')
       = js_replace (literal ''src="/'') (''src="'' @ ''https://ex.com'' @ ''/'') [] ''<img ''
         @ ''src="'' @ ''https://ex.com'' @ ''//''
         @ js_replace (literal ''src="/'') (''src="'' @ ''https://ex.com'' @ ''/'') [] ''host/path">''
   \<and> plain_base ''https://ex.com'' \<and> CHR ''<'' \<notin> set ''https://ex.com''
   \<and> sanitizeHTML ''src="//host/path"'' ''https://ex.com'' = ''src="'' @ ''https://ex.com'' @ ''//host/path"''\<close>
proof -
  have a: "CHR ''$'' \<notin> set ''https://ex.com''" by simp
  have b: "plain_base ''https://ex.com''" by (simp add: plain_base_def)
  have c: "CHR ''<'' \<notin> set ''https://ex.com''" by simp
  show ?thesis
    using C10_protocol_relative_prefixed[OF a, of "''<img ''" \<open>''host/path">''\<close>] a b c by blast
qed

subsection \<open>C6: the code fences\<close>

















end
